theory Spec2Isabelle
  imports Main
begin

section \<open>Errors\<close>

text \<open>
  The exceptions the program can raise, as values. \<open>IndexError\<close> is a \<open>pop\<close> from an
  empty list, \<open>KeyError\<close> a lookup of a missing key in \<open>op_precedence\<close>,
  \<open>PlainException\<close> the bare \<open>raise Exception()\<close> of \<open>parse_regex\<close>, and
  \<open>RecursionError\<close> is raised when the nesting of \<open>add_state\<close> calls exceeds the
  interpreter's recursion limit.
\<close>

datatype error = IndexError | KeyError | PlainException | RecursionError

section \<open>States, fragments and the heap\<close>

text \<open>
  A \<open>RegexGraphState\<close> object has the fields \<open>c\<close> (a one-character string, or one of
  the sentinel strings \<open>_SPLIT\<close> and \<open>_MATCH\<close>) and \<open>out\<close> (the list of states it
  points to). Two state objects are equal, and hash alike, exactly when their
  \<open>_state_id\<close> is the same, and every object draws a fresh id from the class counter,
  so a reference to a state is modelled by its id and the objects live in a heap indexed
  by id. Every \<open>out\<close> list belongs to one state only (it is built fresh by the
  constructor or by its caller), so it is stored with its state.
\<close>

record RegexGraphState =
  c :: string
  out :: "nat list"

definition SPLIT :: string where
  "SPLIT = ''SPLIT''"

definition MATCH :: string where
  "MATCH = ''MATCH''"

record RegexGraphFragment =
  start :: nat
  out_states :: "nat list"

text \<open>
  The heap: the state objects by id, and the class attribute
  \<open>RegexGraphState._state_id\<close>, the id the next object will get. An id that was never
  issued holds a blank object; no reference reaches it.
\<close>

record heap =
  objs :: "nat \<Rightarrow> RegexGraphState"
  state_id :: nat

definition fresh_heap :: "nat \<Rightarrow> heap" where
  "fresh_heap n = \<lparr>objs = (\<lambda>_. \<lparr>c = [], out = []\<rparr>), state_id = n\<rparr>"

text \<open>\<open>RegexGraphState.__init__\<close>: store the fields, take the counter as id, increment it.\<close>

definition RegexGraphState_init :: "string \<Rightarrow> nat list \<Rightarrow> heap \<Rightarrow> nat \<times> heap" where
  "RegexGraphState_init cv outv h =
     (state_id h,
      h\<lparr>objs := (objs h)(state_id h := \<lparr>c = cv, out = outv\<rparr>), state_id := state_id h + 1\<rparr>)"

text \<open>
  The body of the loop of \<open>set_out\<close> for one \<open>state\<close>: \<open>state.out.clear()\<close>,
  then \<open>state.out.append(x)\<close>.
\<close>

definition clear_append :: "nat \<Rightarrow> nat \<Rightarrow> heap \<Rightarrow> heap" where
  "clear_append x state h = h\<lparr>objs := (objs h)(state := (objs h state)\<lparr>out := [] @ [x]\<rparr>)\<rparr>"

text \<open>
  \<open>RegexGraphFragment.set_out\<close>: for every state of \<open>out_states\<close>, in order, clear its
  \<open>out\<close> list and append the start of \<open>next_frag\<close>. (The \<open>isinstance\<close> check cannot
  fail: every caller passes a fragment.)
\<close>

definition set_out :: "RegexGraphFragment \<Rightarrow> RegexGraphFragment \<Rightarrow> heap \<Rightarrow> heap" where
  "set_out self next_frag h = fold (clear_append (start next_frag)) (out_states self) h"

section \<open>Infix to postfix\<close>

text \<open>
  A character of a Python string is a \<open>char\<close>; the program only compares characters
  with each other and with its seven operator characters. Tokens are one-character
  strings in the source; here a token is a \<open>char\<close> and a token list a \<open>string\<close>, so
  that \<open>"".join\<close> is the identity. The two stacks \<open>operators\<close> and \<open>leaf_stack\<close>
  are lists with the top first: \<open>append\<close> is \<open>#\<close> and \<open>pop\<close> takes the head.
\<close>

definition op_precedence :: "char \<rightharpoonup> nat" where
  "op_precedence = map_of
     [(CHR ''|'', 0), (CHR ''.'', 1), (CHR ''?'', 2), (CHR ''+'', 2), (CHR ''*'', 2)]"

text \<open>
  \<open>add_operator\<close>: on an empty stack push \<open>op\<close>; otherwise move operators of strictly
  higher precedence than \<open>op\<close> from the stack to the output, then push \<open>op\<close>.
\<close>

fun add_operator :: "char \<Rightarrow> string \<Rightarrow> string \<Rightarrow> error + string \<times> string" where
  "add_operator op output [] = Inr (output, [op])"
| "add_operator op output (last_operator # operators) =
     (case op_precedence op of
        None \<Rightarrow> Inl KeyError
      | Some p \<Rightarrow>
          (case op_precedence last_operator of
             None \<Rightarrow> Inl KeyError
           | Some q \<Rightarrow>
               if p < q then add_operator op (output @ [last_operator]) operators
               else Inr (output, op # last_operator # operators)))"

text \<open>
  The main loop of \<open>infix_to_postfix\<close>, from index \<open>i\<close> with the current \<open>output\<close> and
  \<open>operators\<close>. At \<open>(\<close> the function calls itself on \<open>regex_str[i+1:]\<close> and then
  advances \<open>i\<close> by the length of the returned token list, plus one.
\<close>

function infix_to_postfix_loop :: "string \<Rightarrow> nat \<Rightarrow> string \<Rightarrow> string \<Rightarrow> error + string" where
  "infix_to_postfix_loop regex_str i output operators =
     (if i < length regex_str then
        (let char = regex_str ! i in
         if op_precedence char \<noteq> None then
           (case add_operator char output operators of
              Inl e \<Rightarrow> Inl e
            | Inr (output', operators') \<Rightarrow>
                infix_to_postfix_loop regex_str (i + 1) output' operators')
         else if char = CHR ''('' then
           (case (if 0 < i \<and> op_precedence (regex_str ! (i - 1)) = None
                  then add_operator CHR ''.'' output operators
                  else Inr (output, operators)) of
              Inl e \<Rightarrow> Inl e
            | Inr (output', operators') \<Rightarrow>
                (case infix_to_postfix_loop (drop (i + 1) regex_str) 0 [] [] of
                   Inl e \<Rightarrow> Inl e
                 | Inr sub_expr \<Rightarrow>
                     infix_to_postfix_loop regex_str (i + length sub_expr + 1)
                       (output' @ sub_expr) operators'))
         else if char = CHR '')'' then Inr (output @ operators)
         else
           (case (if 0 < i \<and> op_precedence (regex_str ! (i - 1)) = None
                  then add_operator CHR ''.'' output operators
                  else Inr (output, operators)) of
              Inl e \<Rightarrow> Inl e
            | Inr (output', operators') \<Rightarrow>
                infix_to_postfix_loop regex_str (i + 1) (output' @ [char]) operators'))
      else Inr (output @ operators))"
  by pat_completeness auto
termination
  by (relation "measures [\<lambda>(r, i, _, _). length r, \<lambda>(r, i, _, _). length r - i]") auto

declare infix_to_postfix_loop.simps [simp del]

definition infix_to_postfix :: "string \<Rightarrow> error + string" where
  "infix_to_postfix regex_str = infix_to_postfix_loop regex_str 0 [] []"

section \<open>Building the graph\<close>

definition operators_set :: "char set" where
  "operators_set = set ''.|*?+''"

fun pop :: "'a list \<Rightarrow> error + 'a \<times> 'a list" where
  "pop [] = Inl IndexError"
| "pop (x # xs) = Inr (x, xs)"

text \<open>
  One round of the loop of \<open>parse_regex\<close>, on the character \<open>char\<close> of the postfix
  string, with the heap and the \<open>leaf_stack\<close>.
\<close>

definition parse_char ::
  "char \<Rightarrow> heap \<times> RegexGraphFragment list \<Rightarrow> error + heap \<times> RegexGraphFragment list" where
  "parse_char char st =
     (case st of (h, leaf_stack) \<Rightarrow>
      if char \<in> operators_set then
        if char = CHR ''.'' then
          (case pop leaf_stack of Inl e \<Rightarrow> Inl e | Inr (f2, stack1) \<Rightarrow>
           case pop stack1 of Inl e \<Rightarrow> Inl e | Inr (f1, stack2) \<Rightarrow>
             Inr (set_out f1 f2 h, \<lparr>start = start f1, out_states = out_states f2\<rparr> # stack2))
        else if char = CHR ''+'' then
          (case pop leaf_stack of Inl e \<Rightarrow> Inl e | Inr (f, stack1) \<Rightarrow>
           case RegexGraphState_init SPLIT [start f] h of (split, h1) \<Rightarrow>
             Inr (h1, \<lparr>start = start f, out_states = [split]\<rparr> # stack1))
        else if char = CHR ''?'' then
          (case pop leaf_stack of Inl e \<Rightarrow> Inl e | Inr (f, stack1) \<Rightarrow>
           case RegexGraphState_init SPLIT [start f] h of (split, h1) \<Rightarrow>
             Inr (h1, \<lparr>start = split, out_states = [split] @ out_states f\<rparr> # stack1))
        else if char = CHR ''*'' then
          (case pop leaf_stack of Inl e \<Rightarrow> Inl e | Inr (f, stack1) \<Rightarrow>
           case RegexGraphState_init SPLIT [start f] h of (split, h1) \<Rightarrow>
             Inr (set_out f \<lparr>start = split, out_states = [split]\<rparr> h1,
                  \<lparr>start = split, out_states = [split]\<rparr> # stack1))
        else if char = CHR ''|'' then
          (case pop leaf_stack of Inl e \<Rightarrow> Inl e | Inr (f2, stack1) \<Rightarrow>
           case pop stack1 of Inl e \<Rightarrow> Inl e | Inr (f1, stack2) \<Rightarrow>
           case RegexGraphState_init SPLIT [start f1, start f2] h of (split, h1) \<Rightarrow>
             Inr (h1, \<lparr>start = split, out_states = out_states f1 @ out_states f2\<rparr> # stack2))
        else Inr (h, leaf_stack)
      else
        (case RegexGraphState_init [char] [] h of (s, h1) \<Rightarrow>
           Inr (h1, \<lparr>start = s, out_states = [s]\<rparr> # leaf_stack)))"

text \<open>The loop over the postfix string, left to right; an exception ends it.\<close>

fun parse_loop ::
  "string \<Rightarrow> heap \<times> RegexGraphFragment list \<Rightarrow> error + heap \<times> RegexGraphFragment list" where
  "parse_loop [] st = Inr st"
| "parse_loop (char # postfix_str) st =
     (case parse_char char st of Inl e \<Rightarrow> Inl e | Inr st' \<Rightarrow> parse_loop postfix_str st')"

text \<open>
  \<open>parse_regex\<close>, called when the class counter is \<open>n\<close>. It returns the start state
  and the heap that holds the graph. The states of earlier calls are unreachable from
  the states made here, so the heap starts fresh at the counter value \<open>n\<close>.
\<close>

definition parse_regex :: "nat \<Rightarrow> string \<Rightarrow> error + heap \<times> nat" where
  "parse_regex n regex_str =
     (case infix_to_postfix regex_str of Inl e \<Rightarrow> Inl e | Inr postfix_str \<Rightarrow>
      case parse_loop postfix_str (fresh_heap n, []) of Inl e \<Rightarrow> Inl e | Inr (h, leaf_stack) \<Rightarrow>
        if length leaf_stack \<noteq> 1 then Inl PlainException
        else
          (case RegexGraphState_init MATCH [] h of (matching_state, h1) \<Rightarrow>
           case pop leaf_stack of Inl e \<Rightarrow> Inl e | Inr (graph_frag, _) \<Rightarrow>
             Inr (set_out graph_frag \<lparr>start = matching_state, out_states = []\<rparr> h1,
                  start graph_frag)))"

section \<open>Simulating the graph\<close>

text \<open>
  \<open>add_state\<close> calls itself on every out edge of a Split state, and nothing in it
  bounds the nesting of these calls; the interpreter does, and raises \<open>RecursionError\<close>
  when the nesting exceeds its recursion limit. In the model \<open>depth\<close> is the number of
  nested \<open>add_state\<close> calls still available: a call at depth \<open>0\<close> raises. (The other
  recursion of the program, of \<open>infix_to_postfix\<close> on a parenthesized group, is bounded
  by the length of the pattern and is not limited in the model.) The set
  \<open>next_states\<close> is updated in place in the source and returned here.
\<close>

fun add_state :: "nat \<Rightarrow> heap \<Rightarrow> nat \<Rightarrow> nat set \<Rightarrow> error + nat set" where
  "add_state depth h state next_states =
     (if depth = 0 then Inl RecursionError
      else if c (objs h state) = SPLIT then
        fold (\<lambda>out_state r. case r of Inl e \<Rightarrow> Inl e
                | Inr next_states' \<Rightarrow> add_state (depth - 1) h out_state next_states')
          (out (objs h state)) (Inr next_states)
      else Inr (insert state next_states))"

declare add_state.simps [simp del]

text \<open>
  A Python set is iterated in an order the program does not control. The order is a
  parameter of the model: \<open>order S\<close> lists the elements of the set \<open>S\<close> as the
  \<open>for\<close> loop visits them.
\<close>

definition step :: "(nat set \<Rightarrow> nat list) \<Rightarrow> nat \<Rightarrow> heap \<Rightarrow> nat set \<Rightarrow> char \<Rightarrow> error + nat set" where
  "step order depth h states char =
     fold (\<lambda>s r. case r of Inl e \<Rightarrow> Inl e
             | Inr next_states \<Rightarrow>
                 if c (objs h s) = [char] then
                   fold (\<lambda>next_s r'. case r' of Inl e \<Rightarrow> Inl e
                           | Inr next_states' \<Rightarrow> add_state depth h next_s next_states')
                     (out (objs h s)) (Inr next_states)
                 else Inr next_states)
       (order states) (Inr {})"

text \<open>
  \<open>match_str\<close>, called when the class counter is \<open>n\<close>. The last loop returns
  \<open>True\<close> at the first matching state it visits and \<open>False\<close> when it visits none.
\<close>

definition match_str ::
  "(nat set \<Rightarrow> nat list) \<Rightarrow> nat \<Rightarrow> nat \<Rightarrow> string \<Rightarrow> string \<Rightarrow> error + bool" where
  "match_str order depth n input_str regex_str =
     (case parse_regex n regex_str of Inl e \<Rightarrow> Inl e | Inr (h, regex_graph) \<Rightarrow>
      case add_state depth h regex_graph {} of Inl e \<Rightarrow> Inl e | Inr current_states \<Rightarrow>
      case fold (\<lambda>char r. case r of Inl e \<Rightarrow> Inl e
                   | Inr current_states' \<Rightarrow> step order depth h current_states' char)
             input_str (Inr current_states) of
        Inl e \<Rightarrow> Inl e
      | Inr final_states \<Rightarrow> Inr (list_ex (\<lambda>s. c (objs h s) = MATCH) (order final_states)))"

text \<open>
  An iteration order is admissible when it lists exactly the elements of every finite
  set. \<open>sorted_list_of_set\<close> is one.
\<close>

definition iteration_order :: "(nat set \<Rightarrow> nat list) \<Rightarrow> bool" where
  "iteration_order order = (\<forall>S. finite S \<longrightarrow> set (order S) = S)"

section \<open>Notions used in the proofs\<close>

text \<open>
  The definitions of this section are not part of the program. They name the inner loops
  of the simulator, state what the loops compute independently of the order in which a
  set is visited, relate two runs of the builder that start from different counter
  values, and describe the graph built for a pattern without operators.
\<close>

text \<open>The inner loop of \<open>add_state\<close> and of \<open>step\<close>: expand the states of a list in turn.\<close>

definition add_states :: "nat \<Rightarrow> heap \<Rightarrow> nat list \<Rightarrow> error + nat set \<Rightarrow> error + nat set" where
  "add_states depth h outs r =
     fold (\<lambda>out_state r. case r of Inl e \<Rightarrow> Inl e
             | Inr next_states' \<Rightarrow> add_state depth h out_state next_states') outs r"

text \<open>
  The expansion of a set of states \<open>T\<close>, each from the empty set: the union of the
  results, or \<open>RecursionError\<close> when one of them exceeds the depth.
\<close>

definition expand :: "nat \<Rightarrow> heap \<Rightarrow> nat set \<Rightarrow> error + nat set" where
  "expand depth h T =
     (if \<exists>t\<in>T. isl (add_state depth h t {}) then Inl RecursionError
      else Inr (\<Union>t\<in>T. projr (add_state depth h t {})))"

text \<open>The states that \<open>step\<close> expands: the successors of the states of \<open>S\<close> that carry \<open>ch\<close>.\<close>

definition targets :: "heap \<Rightarrow> nat set \<Rightarrow> char \<Rightarrow> nat set" where
  "targets h S ch = (\<Union>s\<in>{s \<in> S. c (objs h s) = [ch]}. set (out (objs h s)))"

text \<open>The outer loop of \<open>step\<close> over an explicit list of states.\<close>

definition step_list :: "nat \<Rightarrow> heap \<Rightarrow> nat list \<Rightarrow> char \<Rightarrow> error + nat set \<Rightarrow> error + nat set" where
  "step_list depth h xs ch r =
     fold (\<lambda>s r. case r of Inl e \<Rightarrow> Inl e
             | Inr next_states \<Rightarrow>
                 if c (objs h s) = [ch] then
                   fold (\<lambda>next_s r'. case r' of Inl e \<Rightarrow> Inl e
                           | Inr next_states' \<Rightarrow> add_state depth h next_s next_states')
                     (out (objs h s)) (Inr next_states)
                 else Inr next_states) xs r"

text \<open>The loop of \<open>match_str\<close> over the input, with each step given by \<open>expand\<close>.\<close>

definition run :: "nat \<Rightarrow> heap \<Rightarrow> string \<Rightarrow> error + nat set \<Rightarrow> error + nat set" where
  "run depth h input_str r =
     fold (\<lambda>ch r. case r of Inl e \<Rightarrow> Inl e | Inr S \<Rightarrow> expand depth h (targets h S ch)) input_str r"

text \<open>Acceptance of an input by the graph in heap \<open>h\<close> with start state \<open>s\<close>.\<close>

definition accepts :: "nat \<Rightarrow> heap \<Rightarrow> nat \<Rightarrow> string \<Rightarrow> error + bool" where
  "accepts depth h s input_str =
     (case run depth h input_str (add_state depth h s {}) of
        Inl e \<Rightarrow> Inl e
      | Inr F \<Rightarrow> Inr (\<exists>s\<in>F. c (objs h s) = MATCH))"

text \<open>\<open>match_str\<close> without an iteration order.\<close>

definition compiled_accepts :: "nat \<Rightarrow> nat \<Rightarrow> string \<Rightarrow> string \<Rightarrow> error + bool" where
  "compiled_accepts depth n input_str regex_str =
     (case parse_regex n regex_str of Inl e \<Rightarrow> Inl e
      | Inr g \<Rightarrow> accepts depth (fst g) (snd g) input_str)"

text \<open>
  Adding \<open>k\<close> to every state id: in a state, a fragment, a result of the simulator;
  \<open>heap_shift k h h'\<close> says that \<open>h'\<close> holds at \<open>i + k\<close> the shifted object that \<open>h\<close>
  holds at \<open>i\<close>, and that its counter is \<open>k\<close> ahead.
\<close>

definition shift_state :: "nat \<Rightarrow> RegexGraphState \<Rightarrow> RegexGraphState" where
  "shift_state k st = st\<lparr>out := map (\<lambda>i. i + k) (out st)\<rparr>"

definition shift_frag :: "nat \<Rightarrow> RegexGraphFragment \<Rightarrow> RegexGraphFragment" where
  "shift_frag k f = \<lparr>start = start f + k, out_states = map (\<lambda>i. i + k) (out_states f)\<rparr>"

definition shift_result :: "nat \<Rightarrow> error + nat set \<Rightarrow> error + nat set" where
  "shift_result k r = (case r of Inl e \<Rightarrow> Inl e | Inr S \<Rightarrow> Inr ((\<lambda>i. i + k) ` S))"

definition heap_shift :: "nat \<Rightarrow> heap \<Rightarrow> heap \<Rightarrow> bool" where
  "heap_shift k h h' =
     (state_id h' = state_id h + k \<and> (\<forall>i. objs h' (i + k) = shift_state k (objs h i)))"

definition stack_rel ::
  "nat \<Rightarrow> heap \<times> RegexGraphFragment list \<Rightarrow> heap \<times> RegexGraphFragment list \<Rightarrow> bool" where
  "stack_rel k st st' =
     (heap_shift k (fst st) (fst st') \<and> snd st' = map (shift_frag k) (snd st))"

definition graph_rel :: "nat \<Rightarrow> heap \<times> nat \<Rightarrow> heap \<times> nat \<Rightarrow> bool" where
  "graph_rel k g g' = (heap_shift k (fst g) (fst g') \<and> snd g' = snd g + k)"

text \<open>A pattern without operator characters and parentheses.\<close>

definition literal :: "string \<Rightarrow> bool" where
  "literal s = list_all (\<lambda>ch. ch \<notin> set ''|*+?().'') s"

text \<open>
  The heap after the builder has read the characters of a literal pattern
  (\<open>alloc_literals\<close>) and after it has read \<open>j\<close> concatenation operators (\<open>link\<close>); the
  fragment of a single state; and the graph of a literal pattern \<open>s\<close> that starts at state
  \<open>a\<close>: state \<open>a + i\<close> carries the \<open>i\<close>-th character and points to state \<open>a + i + 1\<close>, and
  state \<open>a + length s\<close> is the matching state.
\<close>

fun alloc_literals :: "string \<Rightarrow> heap \<Rightarrow> heap" where
  "alloc_literals [] h = h"
| "alloc_literals (ch # s) h = alloc_literals s (snd (RegexGraphState_init [ch] [] h))"

fun link :: "nat \<Rightarrow> nat \<Rightarrow> heap \<Rightarrow> heap" where
  "link a 0 h = h"
| "link a (Suc j) h = link a j (clear_append (a + Suc j) (a + j) h)"

definition single :: "nat \<Rightarrow> RegexGraphFragment" where
  "single i = \<lparr>start = i, out_states = [i]\<rparr>"

definition chain :: "heap \<Rightarrow> nat \<Rightarrow> string \<Rightarrow> bool" where
  "chain h a s =
     ((\<forall>i<length s. objs h (a + i) = \<lparr>c = [s ! i], out = [a + i + 1]\<rparr>)
      \<and> objs h (a + length s) = \<lparr>c = MATCH, out = []\<rparr>)"

section \<open>Evaluating the builder and the simulator\<close>

lemmas build_defs = parse_regex_def infix_to_postfix_def infix_to_postfix_loop.simps
  op_precedence_def Let_def parse_char_def operators_set_def RegexGraphState_init_def
  set_out_def clear_append_def fresh_heap_def

text \<open>
  C1. \<open>set_out\<close> should append the new transition to each output state and keep what
  the state already points to; the loop-back edge of the Split of \<open>a*\<close>, set when the
  Split is made, should survive the connection of its exit edge. The code clears the
  list first: whatever a one-slot fragment's state pointed to, after \<open>set_out\<close> it
  points to the successor's start only, and the Split of \<open>a*\<close> (state 1, made with the
  edge to state 0) is left with the single edge to the match state 2.
\<close>

theorem set_out_discards_recorded_edges:
  "out (objs (set_out \<lparr>start = s, out_states = [x]\<rparr> next_frag h) x) = [start next_frag]
   \<and> map_sum id (\<lambda>(h, fs). (fs, c (objs h 1), out (objs h 1))) (parse_loop ''a*'' (fresh_heap 0, []))
       = Inr ([\<lparr>start = 1, out_states = [1]\<rparr>], SPLIT, [0])
   \<and> map_sum id (\<lambda>(h, s). (s, c (objs h s), out (objs h s))) (parse_regex 0 ''a*'')
       = Inr (1, SPLIT, [2])"
  by (simp add: build_defs)

text \<open>
  C2. The pattern \<open>a*\<close> should accept the empty string and \<open>aaaa\<close> and reject
  \<open>aab\<close>. The code accepts the empty string and rejects both others.
\<close>

theorem star_accepts_only_the_empty_string:
  "match_str sorted_list_of_set 1000 0 '''' ''a*'' = Inr True
   \<and> match_str sorted_list_of_set 1000 0 ''aaaa'' ''a*'' = Inr False
   \<and> match_str sorted_list_of_set 1000 0 ''aab'' ''a*'' = Inr False"
  by code_simp

text \<open>
  C3. The pattern \<open>a+\<close> should reject the empty string and accept \<open>a\<close> and \<open>aaa\<close>,
  the \<open>+\<close> case connecting the operand's dangling outputs to the new Split. The code
  rejects all three: the \<open>+\<close> case never connects the operand, so in the graph of
  \<open>a+\<close> the start state (the literal, state 0) points nowhere.
\<close>

theorem plus_accepts_nothing:
  "match_str sorted_list_of_set 1000 0 '''' ''a+'' = Inr False
   \<and> match_str sorted_list_of_set 1000 0 ''a'' ''a+'' = Inr False
   \<and> match_str sorted_list_of_set 1000 0 ''aaa'' ''a+'' = Inr False
   \<and> map_sum id (\<lambda>(h, s). (s, c (objs h s), out (objs h s))) (parse_regex 0 ''a+'')
       = Inr (0, ''a'', [])"
  by code_simp

text \<open>
  C8. The pattern \<open>a?b\<close> should compile and accept \<open>b\<close> and \<open>ab\<close> and reject
  \<open>aab\<close>. The converter inserts no concatenation after a quantifier: the postfix
  string is \<open>ab?\<close>, two fragments are left on the stack, and \<open>parse_regex\<close>, hence
  every \<open>match_str\<close> with this pattern, raises.
\<close>

theorem optional_then_literal_raises:
  "infix_to_postfix ''a?b'' = Inr ''ab?''
   \<and> parse_regex n ''a?b'' = Inl PlainException
   \<and> match_str order depth n input_str ''a?b'' = Inl PlainException"
  by (simp add: match_str_def build_defs)

text \<open>
  C9. After a parenthesized group the parent should resume its scan just past the
  matching \<open>)\<close>, so that the \<open>c\<close> of \<open>(a|b)c\<close> is processed. The code advances by
  the number of tokens of the group's postfix form: for \<open>(a|b)c\<close> the parent resumes
  at index 4, the \<open>)\<close> itself, and stops there; the postfix string is \<open>ab|\<close> and the
  pattern accepts \<open>a\<close> and rejects \<open>ac\<close>.
\<close>

theorem group_resumes_at_closing_parenthesis:
  "infix_to_postfix_loop ''(a|b)c'' 0 [] [] = infix_to_postfix_loop ''(a|b)c'' 4 ''ab|'' []
   \<and> ''(a|b)c'' ! 4 = CHR '')''
   \<and> infix_to_postfix ''(a|b)c'' = Inr ''ab|''
   \<and> match_str sorted_list_of_set 1000 0 ''ac'' ''(a|b)c'' = Inr False
   \<and> match_str sorted_list_of_set 1000 0 ''a'' ''(a|b)c'' = Inr True"
  by code_simp

text \<open>
  C6, as the claim states it, fails: with the empty pattern \<open>match_str\<close> raises on the
  empty input instead of returning \<open>True\<close>.
\<close>

theorem empty_pattern_counterexample:
  "match_str sorted_list_of_set 1000 0 '''' '''' = Inl PlainException"
  by code_simp

text \<open>
  C6, amended. For the empty pattern \<open>infix_to_postfix\<close> returns the empty token
  sequence; \<open>parse_regex\<close> raises, since the fragment stack then holds no fragment
  and its length is not 1; so \<open>match_str\<close> raises for every input.
\<close>

theorem empty_pattern_raises:
  "infix_to_postfix '''' = Inr ''''
   \<and> parse_regex n '''' = Inl PlainException
   \<and> match_str order depth n input_str '''' = Inl PlainException"
  by (simp add: match_str_def build_defs)

text \<open>
  C5, as the claim states it, fails: the pattern \<open>(a\<close> compiles, to the postfix string of
  \<open>a\<close>, and \<open>match_str\<close> returns a boolean.
\<close>

theorem unmatched_parenthesis_counterexample:
  "infix_to_postfix ''(a'' = Inr ''a''
   \<and> match_str sorted_list_of_set 1000 0 ''a'' ''(a'' = Inr True"
  by code_simp

text \<open>
  The graph of the pattern \<open>a+**\<close>, built from the counter value \<open>n\<close>: its start state
  \<open>n + 2\<close> and the state \<open>n + 1\<close> are Split states that point to each other.
\<close>

lemma plus_star_star_graph:
  "\<exists>h. parse_regex n ''a+**'' = Inr (h, n + 2)
     \<and> objs h (n + 1) = \<lparr>c = SPLIT, out = [n + 2]\<rparr>
     \<and> objs h (n + 2) = \<lparr>c = SPLIT, out = [n + 1]\<rparr>"
  by (simp add: build_defs)

lemma split_cycle_exhausts:
  assumes "objs h a = \<lparr>c = SPLIT, out = [b]\<rparr>" and "objs h b = \<lparr>c = SPLIT, out = [a]\<rparr>"
  shows "add_state depth h a ns = Inl RecursionError \<and> add_state depth h b ns = Inl RecursionError"
proof (induction depth arbitrary: ns)
  case 0
  show ?case by (simp add: add_state.simps)
next
  case (Suc depth)
  show ?case using assms Suc by (simp add: add_state.simps [of "Suc depth"])
qed

text \<open>
  C4. \<open>add_state\<close> should terminate on every graph the builder can produce, a state
  already visited not being expanded again. The code keeps no record of visited states.
  The builder produces, for the pattern \<open>a+**\<close>, two Split states that point to each
  other, the start state being one of them: expanding the start state exceeds every
  recursion depth, and \<open>match_str\<close> with this pattern raises \<open>RecursionError\<close> for
  every input.
\<close>

theorem add_state_unbounded_recursion:
  "(\<exists>h. parse_regex n ''a+**'' = Inr (h, n + 2)
      \<and> objs h (n + 1) = \<lparr>c = SPLIT, out = [n + 2]\<rparr>
      \<and> objs h (n + 2) = \<lparr>c = SPLIT, out = [n + 1]\<rparr>
      \<and> add_state depth h (n + 2) {} = Inl RecursionError)
   \<and> match_str order depth n input_str ''a+**'' = Inl RecursionError"
proof -
  obtain h where h: "parse_regex n ''a+**'' = Inr (h, n + 2)"
    "objs h (n + 1) = \<lparr>c = SPLIT, out = [n + 2]\<rparr>"
    "objs h (n + 2) = \<lparr>c = SPLIT, out = [n + 1]\<rparr>"
    using plus_star_star_graph by blast
  have loop: "add_state depth h (n + 2) {} = Inl RecursionError"
    using split_cycle_exhausts [OF h(2) h(3)] by simp
  then have "match_str order depth n input_str ''a+**'' = Inl RecursionError"
    by (simp add: match_str_def h(1))
  with h loop show ?thesis by blast
qed

section \<open>The expansion of a state\<close>

text \<open>
  \<open>add_state\<close> only adds to the set it is given: its result is the given set joined
  with the result from the empty set, and the only exception it raises is
  \<open>RecursionError\<close>. So a loop of expansions computes a union, whatever its order.
\<close>

lemma add_states_Nil [simp]: "add_states depth h [] r = r"
  by (simp add: add_states_def)

lemma add_states_Cons [simp]:
  "add_states depth h (x # xs) (Inr ns) = add_states depth h xs (add_state depth h x ns)"
  by (simp add: add_states_def)

lemma add_states_Inl [simp]: "add_states depth h xs (Inl e) = Inl e"
  by (induction xs) (simp_all add: add_states_def)

lemma add_state_0 [simp]: "add_state 0 h s ns = Inl RecursionError"
  by (simp add: add_state.simps)

lemma add_state_Suc:
  "add_state (Suc d) h s ns =
     (if c (objs h s) = SPLIT then add_states d h (out (objs h s)) (Inr ns)
      else Inr (insert s ns))"
  by (simp add: add_state.simps [of "Suc d"] add_states_def)

lemma add_states_acc:
  assumes step: "\<And>s ns. add_state d h s ns =
     (case add_state d h s {} of Inl e \<Rightarrow> Inl RecursionError | Inr r \<Rightarrow> Inr (ns \<union> r))"
  shows "add_states d h outs (Inr ns) =
     (case add_states d h outs (Inr {}) of Inl e \<Rightarrow> Inl RecursionError | Inr r \<Rightarrow> Inr (ns \<union> r))"
proof (induction outs arbitrary: ns)
  case Nil
  show ?case by simp
next
  case (Cons x xs)
  show ?case
  proof (cases "add_state d h x {}")
    case (Inl e)
    then have "add_state d h x ns = Inl RecursionError" using step [of x ns] by simp
    with Inl show ?thesis by simp
  next
    case (Inr r)
    then have "add_state d h x ns = Inr (ns \<union> r)" using step [of x ns] by simp
    with Inr show ?thesis
      using Cons.IH [of "ns \<union> r"] Cons.IH [of r]
      by (simp add: Un_assoc split: sum.splits)
  qed
qed

lemma add_state_acc:
  "add_state d h s ns =
     (case add_state d h s {} of Inl e \<Rightarrow> Inl RecursionError | Inr r \<Rightarrow> Inr (ns \<union> r))"
proof (induction d arbitrary: s ns)
  case 0
  show ?case by simp
next
  case (Suc d)
  show ?case
    using add_states_acc [of d h "out (objs h s)" ns, OF Suc]
    by (simp add: add_state_Suc)
qed

lemma add_state_finite: "add_state d h s {} = Inr r \<Longrightarrow> finite r"
proof (induction d arbitrary: s r)
  case 0
  then show ?case by simp
next
  case (Suc d)
  have fin: "finite ns \<Longrightarrow> add_states d h outs (Inr ns) = Inr r' \<Longrightarrow> finite r'" for outs ns r'
  proof (induction outs arbitrary: ns)
    case Nil
    then show ?case by simp
  next
    case (Cons x xs)
    show ?case
    proof (cases "add_state d h x {}")
      case (Inl e)
      then show ?thesis using Cons.prems add_state_acc [of d h x ns] by simp
    next
      case (Inr rx)
      then have "add_state d h x ns = Inr (ns \<union> rx)" "finite rx"
        using add_state_acc [of d h x ns] Suc.IH by simp_all
      then show ?thesis using Cons.IH [of "ns \<union> rx"] Cons.prems by simp
    qed
  qed
  show ?case using Suc.prems fin [of "{}"]
    by (auto simp: add_state_Suc split: if_splits)
qed

lemma expand_empty [simp]: "expand d h {} = Inr {}"
  by (simp add: expand_def)

lemma expand_Un:
  "expand d h (A \<union> B) =
     (case expand d h A of Inl e \<Rightarrow> Inl e
      | Inr ra \<Rightarrow> (case expand d h B of Inl e \<Rightarrow> Inl e | Inr rb \<Rightarrow> Inr (ra \<union> rb)))"
  by (auto simp: expand_def)

lemma expand_single:
  "expand d h {t} = (case add_state d h t {} of Inl e \<Rightarrow> Inl RecursionError | Inr r \<Rightarrow> Inr r)"
  by (cases "add_state d h t {}") (simp_all add: expand_def)

lemma expand_insert:
  "expand d h (insert t T) =
     (case add_state d h t {} of Inl e \<Rightarrow> Inl RecursionError
      | Inr ra \<Rightarrow> (case expand d h T of Inl e \<Rightarrow> Inl e | Inr rb \<Rightarrow> Inr (ra \<union> rb)))"
  using expand_Un [of d h "{t}" T] by (simp add: expand_single split: sum.splits)

lemma expand_error: "expand d h T = Inl e \<Longrightarrow> e = RecursionError"
  by (simp add: expand_def split: if_splits)

lemma expand_finite:
  assumes "finite T" and "expand d h T = Inr r"
  shows "finite r"
proof -
  have ok: "\<forall>t\<in>T. \<not> isl (add_state d h t {})"
    and r: "r = (\<Union>t\<in>T. projr (add_state d h t {}))"
    using assms(2) by (auto simp: expand_def split: if_splits)
  have "finite (projr (add_state d h t {}))" if "t \<in> T" for t
  proof -
    have "add_state d h t {} = Inr (projr (add_state d h t {}))" using ok that by simp
    then show ?thesis by (rule add_state_finite)
  qed
  then show ?thesis using assms(1) r by simp
qed

lemma add_states_expand:
  "add_states d h outs (Inr ns) =
     (case expand d h (set outs) of Inl e \<Rightarrow> Inl e | Inr r \<Rightarrow> Inr (ns \<union> r))"
proof (induction outs arbitrary: ns)
  case Nil
  show ?case by simp
next
  case (Cons x xs)
  show ?case
    using add_state_acc [of d h x ns] Cons.IH
    by (auto simp: expand_insert Un_assoc split: sum.splits dest: expand_error)
qed

section \<open>The iteration order does not matter\<close>

lemma step_list_Nil [simp]: "step_list d h [] ch r = r"
  by (simp add: step_list_def)

lemma step_list_Inl [simp]: "step_list d h xs ch (Inl e) = Inl e"
  by (induction xs) (simp_all add: step_list_def)

lemma step_list_Cons [simp]:
  "step_list d h (x # xs) ch (Inr ns) =
     step_list d h xs ch
       (if c (objs h x) = [ch] then add_states d h (out (objs h x)) (Inr ns) else Inr ns)"
  by (simp add: step_list_def add_states_def)

lemma targets_empty [simp]: "targets h {} ch = {}"
  by (simp add: targets_def)

lemma targets_insert:
  "targets h (insert x S) ch =
     (if c (objs h x) = [ch] then set (out (objs h x)) \<union> targets h S ch else targets h S ch)"
  by (auto simp: targets_def)

lemma targets_finite: "finite S \<Longrightarrow> finite (targets h S ch)"
  by (simp add: targets_def)

lemma step_list_expand:
  "step_list d h xs ch (Inr ns) =
     (case expand d h (targets h (set xs) ch) of Inl e \<Rightarrow> Inl e | Inr r \<Rightarrow> Inr (ns \<union> r))"
proof (induction xs arbitrary: ns)
  case Nil
  show ?case by simp
next
  case (Cons x xs)
  show ?case
    using Cons.IH
    by (auto simp: targets_insert expand_Un add_states_expand Un_assoc split: sum.splits
        dest: expand_error)
qed

lemma step_expand:
  assumes "iteration_order order" and "finite S"
  shows "step order d h S ch = expand d h (targets h S ch)"
proof -
  have "set (order S) = S" using assms by (simp add: iteration_order_def)
  moreover have "step order d h S ch = step_list d h (order S) ch (Inr {})"
    by (simp add: step_def step_list_def)
  ultimately show ?thesis by (simp add: step_list_expand split: sum.splits)
qed

lemma run_Nil [simp]: "run d h [] r = r"
  by (simp add: run_def)

lemma run_Inl [simp]: "run d h xs (Inl e) = Inl e"
  by (induction xs) (simp_all add: run_def)

lemma run_Cons [simp]: "run d h (x # xs) (Inr S) = run d h xs (expand d h (targets h S x))"
  by (simp add: run_def)

lemma fold_step_run:
  assumes "iteration_order order"
  shows "finite S \<Longrightarrow>
    fold (\<lambda>char r. case r of Inl e \<Rightarrow> Inl e | Inr S' \<Rightarrow> step order d h S' char) input_str (Inr S)
      = run d h input_str (Inr S)"
proof (induction input_str arbitrary: S)
  case Nil
  show ?case by simp
next
  case (Cons x xs)
  show ?case
  proof (cases "expand d h (targets h S x)")
    case (Inl e)
    then show ?thesis using Cons.prems assms
      by (simp add: step_expand) (induction xs, simp_all)
  next
    case (Inr r)
    then have "finite r" using expand_finite targets_finite Cons.prems by blast
    then show ?thesis using Inr Cons.prems assms Cons.IH [of r] by (simp add: step_expand)
  qed
qed

lemma run_finite: "finite S \<Longrightarrow> run d h input_str (Inr S) = Inr F \<Longrightarrow> finite F"
proof (induction input_str arbitrary: S)
  case Nil
  then show ?case by simp
next
  case (Cons x xs)
  then show ?case
    by (cases "expand d h (targets h S x)") (auto dest: expand_finite [OF targets_finite])
qed

lemma match_str_accepts:
  assumes "iteration_order order"
  shows "match_str order depth n input_str regex_str =
    (case parse_regex n regex_str of Inl e \<Rightarrow> Inl e
     | Inr (h, regex_graph) \<Rightarrow> accepts depth h regex_graph input_str)"
proof (cases "parse_regex n regex_str")
  case (Inl e)
  then show ?thesis by (simp add: match_str_def)
next
  case (Inr hs)
  obtain h s where hs: "hs = (h, s)" by (cases hs)
  show ?thesis
  proof (cases "add_state depth h s {}")
    case (Inl e)
    then show ?thesis using Inr hs by (simp add: match_str_def accepts_def)
  next
    case st: (Inr S)
    then have fin: "finite S" by (rule add_state_finite)
    show ?thesis
    proof (cases "run depth h input_str (Inr S)")
      case (Inl e)
      then show ?thesis using Inr hs st fin assms
        by (simp add: match_str_def accepts_def fold_step_run)
    next
      case F: (Inr F)
      then have "finite F" using fin run_finite by blast
      then have "set (order F) = F" using assms by (simp add: iteration_order_def)
      then show ?thesis using Inr hs st fin assms F
        by (simp add: match_str_def accepts_def fold_step_run list_ex_iff)
    qed
  qed
qed

section \<open>The builder, case by case\<close>

lemma fst_init [simp]: "fst (RegexGraphState_init cv outs h) = state_id h"
  by (simp add: RegexGraphState_init_def)

lemma state_id_init [simp]: "state_id (snd (RegexGraphState_init cv outs h)) = state_id h + 1"
  by (simp add: RegexGraphState_init_def)

lemma objs_init [simp]:
  "objs (snd (RegexGraphState_init cv outs h)) =
     (objs h)(state_id h := \<lparr>c = cv, out = outs\<rparr>)"
  by (simp add: RegexGraphState_init_def)

lemma operators_set_iff:
  "ch \<in> operators_set \<longleftrightarrow>
     ch = CHR ''.'' \<or> ch = CHR ''|'' \<or> ch = CHR ''*'' \<or> ch = CHR ''?'' \<or> ch = CHR ''+''"
  by (auto simp: operators_set_def)

lemma parse_char_literal:
  "ch \<notin> operators_set \<Longrightarrow>
   parse_char ch (h, fs) =
     Inr (snd (RegexGraphState_init [ch] [] h), \<lparr>start = state_id h, out_states = [state_id h]\<rparr> # fs)"
  by (simp add: parse_char_def split: prod.splits) (simp add: RegexGraphState_init_def)

lemma parse_char_concat:
  "parse_char CHR ''.'' (h, fs) =
     (case fs of
        f2 # f1 # rest \<Rightarrow>
          Inr (set_out f1 f2 h, \<lparr>start = start f1, out_states = out_states f2\<rparr> # rest)
      | _ \<Rightarrow> Inl IndexError)"
  by (simp add: parse_char_def operators_set_def split: list.splits)

lemma parse_char_plus:
  "parse_char CHR ''+'' (h, fs) =
     (case fs of
        f # rest \<Rightarrow>
          Inr (snd (RegexGraphState_init SPLIT [start f] h),
               \<lparr>start = start f, out_states = [state_id h]\<rparr> # rest)
      | [] \<Rightarrow> Inl IndexError)"
  by (simp add: parse_char_def operators_set_def RegexGraphState_init_def split: list.splits)

lemma parse_char_optional:
  "parse_char CHR ''?'' (h, fs) =
     (case fs of
        f # rest \<Rightarrow>
          Inr (snd (RegexGraphState_init SPLIT [start f] h),
               \<lparr>start = state_id h, out_states = state_id h # out_states f\<rparr> # rest)
      | [] \<Rightarrow> Inl IndexError)"
  by (simp add: parse_char_def operators_set_def RegexGraphState_init_def split: list.splits)

lemma parse_char_star:
  "parse_char CHR ''*'' (h, fs) =
     (case fs of
        f # rest \<Rightarrow>
          Inr (set_out f \<lparr>start = state_id h, out_states = [state_id h]\<rparr>
                 (snd (RegexGraphState_init SPLIT [start f] h)),
               \<lparr>start = state_id h, out_states = [state_id h]\<rparr> # rest)
      | [] \<Rightarrow> Inl IndexError)"
  by (simp add: parse_char_def operators_set_def RegexGraphState_init_def split: list.splits)

lemma parse_char_alt:
  "parse_char CHR ''|'' (h, fs) =
     (case fs of
        f2 # f1 # rest \<Rightarrow>
          Inr (snd (RegexGraphState_init SPLIT [start f1, start f2] h),
               \<lparr>start = state_id h, out_states = out_states f1 @ out_states f2\<rparr> # rest)
      | _ \<Rightarrow> Inl IndexError)"
  by (simp add: parse_char_def operators_set_def RegexGraphState_init_def split: list.splits)

section \<open>The counter value does not matter\<close>

text \<open>
  Two runs of the builder on the same pattern, from the counter values \<open>n\<close> and
  \<open>n + k\<close>, build the same graph up to the shift of every id by \<open>k\<close>, and the simulator
  commutes with the shift.
\<close>

lemma heap_shift_fresh: "heap_shift k (fresh_heap n) (fresh_heap (n + k))"
  by (simp add: heap_shift_def fresh_heap_def shift_state_def)

lemma heap_shift_id: "heap_shift k h h' \<Longrightarrow> state_id h' = state_id h + k"
  by (simp add: heap_shift_def)

lemma heap_shift_c: "heap_shift k h h' \<Longrightarrow> c (objs h' (i + k)) = c (objs h i)"
  by (simp add: heap_shift_def shift_state_def)

lemma heap_shift_out:
  "heap_shift k h h' \<Longrightarrow> out (objs h' (i + k)) = map (\<lambda>i. i + k) (out (objs h i))"
  by (simp add: heap_shift_def shift_state_def)

lemma init_shift:
  assumes "heap_shift k h h'" and "outs' = map (\<lambda>i. i + k) outs"
  shows "heap_shift k (snd (RegexGraphState_init cv outs h))
           (snd (RegexGraphState_init cv outs' h'))"
  using assms by (simp add: heap_shift_def RegexGraphState_init_def shift_state_def)

lemma clear_append_shift:
  "heap_shift k h h' \<Longrightarrow> heap_shift k (clear_append t x h) (clear_append (t + k) (x + k) h')"
  by (simp add: heap_shift_def clear_append_def shift_state_def)

lemma set_out_shift:
  assumes "heap_shift k h h'" and "out_states f' = map (\<lambda>i. i + k) (out_states f)"
    and "start nf' = start nf + k"
  shows "heap_shift k (set_out f nf h) (set_out f' nf' h')"
proof -
  have "heap_shift k (fold (clear_append t) xs h) (fold (clear_append (t + k)) (map (\<lambda>i. i + k) xs) h')"
    for t xs
    using assms(1)
  proof (induction xs arbitrary: h h')
    case Nil
    then show ?case by simp
  next
    case (Cons x xs)
    from Cons.IH [OF clear_append_shift [OF Cons.prems]] show ?case by simp
  qed
  then show ?thesis by (simp add: set_out_def assms(2,3))
qed

lemma parse_char_shift:
  assumes "stack_rel k st st'"
  shows "rel_sum (=) (stack_rel k) (parse_char ch st) (parse_char ch st')"
proof -
  obtain h fs where st: "st = (h, fs)" by (cases st)
  obtain h' where st': "st' = (h', map (shift_frag k) fs)" and hs: "heap_shift k h h'"
    using assms st by (cases st') (simp add: stack_rel_def)
  note id = heap_shift_id [OF hs]
  consider (lit) "ch \<notin> operators_set" | (concat) "ch = CHR ''.''" | (alt) "ch = CHR ''|''"
    | (star) "ch = CHR ''*''" | (opt) "ch = CHR ''?''" | (plus) "ch = CHR ''+''"
    using operators_set_iff by blast
  then show ?thesis
  proof cases
    case lit
    then show ?thesis
      using init_shift [OF hs, of "[]" "[]" "[ch]"]
      by (simp add: st st' parse_char_literal stack_rel_def id shift_frag_def)
  next
    case concat
    show ?thesis
    proof (cases fs)
      case Nil
      then show ?thesis by (simp add: st st' concat parse_char_concat)
    next
      case (Cons f2 fs1)
      then show ?thesis
        using set_out_shift [OF hs]
        by (cases fs1) (simp_all add: st st' concat parse_char_concat stack_rel_def shift_frag_def)
    qed
  next
    case alt
    show ?thesis
    proof (cases fs)
      case Nil
      then show ?thesis by (simp add: st st' alt parse_char_alt)
    next
      case (Cons f2 fs1)
      show ?thesis
      proof (cases fs1)
        case Nil
        then show ?thesis using Cons by (simp add: st st' alt parse_char_alt)
      next
        case f1: (Cons f1 fs2)
        then show ?thesis
          using Cons init_shift [OF hs, of "[start f1 + k, start f2 + k]" "[start f1, start f2]" SPLIT]
          by (simp add: st st' alt parse_char_alt stack_rel_def shift_frag_def id)
      qed
    qed
  next
    case star
    show ?thesis
    proof (cases fs)
      case Nil
      then show ?thesis by (simp add: st st' star parse_char_star)
    next
      case (Cons f fs1)
      have "heap_shift k (snd (RegexGraphState_init SPLIT [start f] h))
              (snd (RegexGraphState_init SPLIT [start f + k] h'))"
        by (rule init_shift [OF hs]) simp
      then have "heap_shift k
          (set_out f \<lparr>start = state_id h, out_states = [state_id h]\<rparr>
             (snd (RegexGraphState_init SPLIT [start f] h)))
          (set_out (shift_frag k f) \<lparr>start = state_id h + k, out_states = [state_id h + k]\<rparr>
             (snd (RegexGraphState_init SPLIT [start f + k] h')))"
        by (rule set_out_shift) (simp_all add: shift_frag_def)
      then show ?thesis
        by (simp add: Cons st st' star parse_char_star stack_rel_def id) (simp add: shift_frag_def)
    qed
  next
    case opt
    show ?thesis
    proof (cases fs)
      case Nil
      then show ?thesis by (simp add: st st' opt parse_char_optional)
    next
      case (Cons f fs1)
      then show ?thesis
        using init_shift [OF hs, of "[start f + k]" "[start f]" SPLIT]
        by (simp add: st st' opt parse_char_optional stack_rel_def id) (simp add: shift_frag_def)
    qed
  next
    case plus
    show ?thesis
    proof (cases fs)
      case Nil
      then show ?thesis by (simp add: st st' plus parse_char_plus)
    next
      case (Cons f fs1)
      then show ?thesis
        using init_shift [OF hs, of "[start f + k]" "[start f]" SPLIT]
        by (simp add: st st' plus parse_char_plus stack_rel_def id) (simp add: shift_frag_def)
    qed
  qed
qed

lemma parse_loop_shift:
  "stack_rel k st st' \<Longrightarrow>
   rel_sum (=) (stack_rel k) (parse_loop postfix_str st) (parse_loop postfix_str st')"
proof (induction postfix_str arbitrary: st st')
  case Nil
  then show ?case by simp
next
  case (Cons ch rest)
  show ?case
  proof (cases "parse_char ch st")
    case (Inl e)
    then show ?thesis using parse_char_shift [OF Cons.prems, of ch]
      by (cases "parse_char ch st'") simp_all
  next
    case (Inr st1)
    then show ?thesis using parse_char_shift [OF Cons.prems, of ch] Cons.IH [of st1]
      by (cases "parse_char ch st'") simp_all
  qed
qed

lemma parse_regex_shift:
  "rel_sum (=) (graph_rel k) (parse_regex n regex_str) (parse_regex (n + k) regex_str)"
proof (cases "infix_to_postfix regex_str")
  case (Inl e)
  then show ?thesis by (simp add: parse_regex_def)
next
  case (Inr postfix_str)
  have "stack_rel k (fresh_heap n, []) (fresh_heap (n + k), [])"
    by (simp add: stack_rel_def heap_shift_fresh)
  note rel = parse_loop_shift [OF this, of postfix_str]
  show ?thesis
  proof (cases "parse_loop postfix_str (fresh_heap n, [])")
    case (Inl e)
    then show ?thesis using Inr rel
      by (cases "parse_loop postfix_str (fresh_heap (n + k), [])") (simp_all add: parse_regex_def)
  next
    case l1: (Inr st)
    then obtain st' where l2: "parse_loop postfix_str (fresh_heap (n + k), []) = Inr st'"
      and l3: "stack_rel k st st'"
      using rel by (cases "parse_loop postfix_str (fresh_heap (n + k), [])") simp_all
    note loop = l1 l2 l3
    obtain h fs where st: "st = (h, fs)" by (cases st)
    obtain h' where st': "st' = (h', map (shift_frag k) fs)" and hs: "heap_shift k h h'"
      using loop(3) st by (cases st') (simp add: stack_rel_def)
    show ?thesis
    proof (cases "length fs = 1")
      case False
      then show ?thesis using Inr loop(1,2) st st' by (simp add: parse_regex_def)
    next
      case True
      then obtain f where fs: "fs = [f]" by (cases fs) auto
      have "heap_shift k (snd (RegexGraphState_init MATCH [] h))
              (snd (RegexGraphState_init MATCH [] h'))"
        by (rule init_shift [OF hs]) simp
      then have "heap_shift k
          (set_out f \<lparr>start = state_id h, out_states = []\<rparr> (snd (RegexGraphState_init MATCH [] h)))
          (set_out (shift_frag k f) \<lparr>start = state_id h', out_states = []\<rparr>
             (snd (RegexGraphState_init MATCH [] h')))"
        by (rule set_out_shift) (simp_all add: heap_shift_id [OF hs] shift_frag_def)
      then show ?thesis using Inr loop(1,2) st st' fs
        by (simp add: parse_regex_def graph_rel_def split: prod.splits)
          (simp add: RegexGraphState_init_def shift_frag_def)
    qed
  qed
qed

lemma shift_result_simps [simp]:
  "shift_result k (Inl e) = Inl e"
  "shift_result k (Inr S) = Inr ((\<lambda>i. i + k) ` S)"
  by (simp_all add: shift_result_def)

lemma add_states_shift:
  assumes step: "\<And>s ns. add_state d h' (s + k) ((\<lambda>i. i + k) ` ns)
                   = shift_result k (add_state d h s ns)"
  shows "add_states d h' (map (\<lambda>i. i + k) outs) (Inr ((\<lambda>i. i + k) ` ns))
           = shift_result k (add_states d h outs (Inr ns))"
proof (induction outs arbitrary: ns)
  case Nil
  show ?case by simp
next
  case (Cons x xs)
  show ?case
    using Cons.IH by (cases "add_state d h x ns") (simp_all add: step)
qed

lemma add_state_shift:
  assumes "heap_shift k h h'"
  shows "add_state d h' (s + k) ((\<lambda>i. i + k) ` ns)
           = shift_result k (add_state d h s ns)"
proof (induction d arbitrary: s ns)
  case 0
  show ?case by simp
next
  case (Suc d)
  show ?case
    using add_states_shift [of d h' k h "out (objs h s)" ns, OF Suc]
    by (simp add: add_state_Suc heap_shift_c [OF assms] heap_shift_out [OF assms])
qed

lemma targets_shift:
  assumes "heap_shift k h h'"
  shows "targets h' ((\<lambda>i. i + k) ` S) ch = (\<lambda>i. i + k) ` targets h S ch"
proof -
  have "targets h' ((\<lambda>i. i + k) ` S) ch
      = (\<Union>s\<in>{s \<in> S. c (objs h s) = [ch]}. (\<lambda>i. i + k) ` set (out (objs h s)))"
    by (auto simp: targets_def heap_shift_c [OF assms] heap_shift_out [OF assms])
  then show ?thesis by (simp add: targets_def image_UN)
qed

lemma expand_shift:
  assumes "heap_shift k h h'"
  shows "expand d h' ((\<lambda>i. i + k) ` T) = shift_result k (expand d h T)"
proof -
  have eq: "add_state d h' (t + k) {} = shift_result k (add_state d h t {})" for t
    using add_state_shift [OF assms, of d t "{}"] by simp
  have isl: "isl (add_state d h' (t + k) {}) = isl (add_state d h t {})" for t
    by (cases "add_state d h t {}") (simp_all add: eq)
  have pr: "\<not> isl (add_state d h t {}) \<Longrightarrow>
      projr (add_state d h' (t + k) {}) = (\<lambda>i. i + k) ` projr (add_state d h t {})" for t
    by (cases "add_state d h t {}") (simp_all add: eq)
  show ?thesis
    by (auto simp: expand_def isl pr image_UN)
qed

lemma run_shift:
  assumes "heap_shift k h h'"
  shows "run d h' input_str (shift_result k r)
           = shift_result k (run d h input_str r)"
proof (induction input_str arbitrary: r)
  case Nil
  show ?case by simp
next
  case (Cons x xs)
  show ?case
  proof (cases r)
    case (Inl e)
    then show ?thesis by simp
  next
    case (Inr S)
    then show ?thesis
      using Cons.IH [of "expand d h (targets h S x)"]
      by (simp add: targets_shift [OF assms] expand_shift [OF assms])
  qed
qed

lemma accepts_shift:
  assumes "heap_shift k h h'"
  shows "accepts d h' (s + k) input_str = accepts d h s input_str"
proof -
  have "add_state d h' (s + k) {} = shift_result k (add_state d h s {})"
    using add_state_shift [OF assms, of d s "{}"] by simp
  then have "run d h' input_str (add_state d h' (s + k) {})
      = shift_result k (run d h input_str (add_state d h s {}))"
    by (simp add: run_shift [OF assms])
  then show ?thesis
    by (cases "run d h input_str (add_state d h s {})")
       (simp_all add: accepts_def heap_shift_c [OF assms])
qed

lemma match_str_compiled:
  "iteration_order order \<Longrightarrow>
   match_str order depth n input_str regex_str = compiled_accepts depth n input_str regex_str"
  by (simp add: match_str_accepts compiled_accepts_def split: sum.splits prod.splits)

lemma compiled_accepts_shift:
  "compiled_accepts depth (n + k) input_str regex_str = compiled_accepts depth n input_str regex_str"
proof (cases "parse_regex n regex_str")
  case (Inl e)
  then show ?thesis using parse_regex_shift [of k n regex_str]
    by (cases "parse_regex (n + k) regex_str") (simp_all add: compiled_accepts_def)
next
  case (Inr g)
  then obtain g' where g': "parse_regex (n + k) regex_str = Inr g'" and rel: "graph_rel k g g'"
    using parse_regex_shift [of k n regex_str]
    by (cases "parse_regex (n + k) regex_str") simp_all
  then show ?thesis using Inr accepts_shift [of k "fst g" "fst g'" depth "snd g" input_str]
    by (simp add: compiled_accepts_def graph_rel_def)
qed

lemma compiled_accepts_counter:
  "compiled_accepts depth n input_str regex_str = compiled_accepts depth 0 input_str regex_str"
  using compiled_accepts_shift [of depth 0 n input_str regex_str] by simp

lemma iteration_order_sorted: "iteration_order sorted_list_of_set"
  by (simp add: iteration_order_def)

lemma iteration_order_rev: "iteration_order (\<lambda>S. rev (sorted_list_of_set S))"
  by (simp add: iteration_order_def)

text \<open>
  C10. Matching is deterministic: for every pattern and input, \<open>match_str\<close> returns the
  same result (the same boolean, or the same exception) whatever the value of the
  state-id counter when it is called and in whatever order the sets are iterated. Two
  successive calls differ in nothing else.
\<close>

theorem match_str_deterministic:
  assumes "iteration_order order1" and "iteration_order order2"
  shows "match_str order1 depth n1 input_str regex_str
           = match_str order2 depth n2 input_str regex_str"
  using assms compiled_accepts_counter [of depth n1] compiled_accepts_counter [of depth n2]
  by (simp add: match_str_compiled)

text \<open>
  C10, at an instance: ascending and descending iteration, counter values 0 and 7.
\<close>

theorem match_str_deterministic_witness:
  "iteration_order sorted_list_of_set \<and> iteration_order (\<lambda>S. rev (sorted_list_of_set S))
   \<and> match_str sorted_list_of_set 1000 0 ''ab'' ''(a|b)*''
       = match_str (\<lambda>S. rev (sorted_list_of_set S)) 1000 7 ''ab'' ''(a|b)*''"
  using match_str_deterministic [OF iteration_order_sorted iteration_order_rev, of 1000 0 "''ab''" "''(a|b)*''" 7]
  by (simp add: iteration_order_sorted iteration_order_rev)

section \<open>Patterns without operators\<close>

lemma literal_char:
  "literal s \<Longrightarrow> ch \<in> set s \<Longrightarrow>
     op_precedence ch = None \<and> ch \<noteq> CHR ''('' \<and> ch \<noteq> CHR '')'' \<and> ch \<notin> operators_set"
  by (auto simp: literal_def list_all_iff op_precedence_def operators_set_def)

lemma add_operator_concat:
  "add_operator CHR ''.'' output (replicate j CHR ''.'') = Inr (output, replicate (Suc j) CHR ''.'')"
  by (cases j) (simp_all add: op_precedence_def)

lemma infix_loop_literal:
  assumes "literal rs"
  shows "0 < i \<Longrightarrow> i \<le> length rs \<Longrightarrow>
    infix_to_postfix_loop rs i outp (replicate j CHR ''.'')
      = Inr (outp @ drop i rs @ replicate (j + (length rs - i)) CHR ''.'')"
proof (induction "length rs - i" arbitrary: i outp j)
  case 0
  then show ?case by (simp add: infix_to_postfix_loop.simps [of rs i])
next
  case (Suc m)
  then have i: "i < length rs" by simp
  then have ch: "rs ! i \<in> set rs" and prev: "rs ! (i - 1) \<in> set rs" by simp_all
  note a = literal_char [OF assms ch] and b = literal_char [OF assms prev]
  have m: "m = length rs - (i + 1)" using Suc.hyps(2) by simp
  have "infix_to_postfix_loop rs i outp (replicate j CHR ''.'')
      = infix_to_postfix_loop rs (i + 1) (outp @ [rs ! i]) (replicate (Suc j) CHR ''.'')"
    using i Suc.prems(1) a b
    by (subst infix_to_postfix_loop.simps) (simp add: add_operator_concat Let_def)
  also have "\<dots> = Inr ((outp @ [rs ! i]) @ drop (i + 1) rs
      @ replicate (Suc j + (length rs - (i + 1))) CHR ''.'')"
    using Suc.hyps(1) [OF m, of "outp @ [rs ! i]" "Suc j"] i by simp
  also have "\<dots> = Inr (outp @ drop i rs @ replicate (j + (length rs - i)) CHR ''.'')"
    using i Suc.hyps(2) by (simp add: Cons_nth_drop_Suc [symmetric] flip: replicate_Suc)
  finally show ?case .
qed

lemma infix_to_postfix_literal:
  assumes "literal s" and "s \<noteq> []"
  shows "infix_to_postfix s = Inr (s @ replicate (length s - 1) CHR ''.'')"
proof -
  have ch: "s ! 0 \<in> set s" using assms(2) by simp
  note a = literal_char [OF assms(1) ch]
  have "infix_to_postfix s = infix_to_postfix_loop s 1 [s ! 0] (replicate 0 CHR ''.'')"
    using assms(2) a
    by (simp add: infix_to_postfix_def infix_to_postfix_loop.simps [of s 0] Let_def)
  also have "\<dots> = Inr ([s ! 0] @ drop 1 s @ replicate (0 + (length s - 1)) CHR ''.'')"
    using assms(2) by (intro infix_loop_literal [OF assms(1)]) (simp_all add: Suc_leI)
  finally show ?thesis
    using assms(2) by (cases s) simp_all
qed

lemma infix_to_postfix_open_literal:
  assumes "literal s" and "s \<noteq> []"
  shows "infix_to_postfix (CHR ''('' # s) = infix_to_postfix s"
proof -
  have sub: "infix_to_postfix_loop s 0 [] [] = Inr (s @ replicate (length s - 1) CHR ''.'')"
    using infix_to_postfix_literal [OF assms] by (simp add: infix_to_postfix_def)
  have len: "\<not> Suc (length s + (length s - 1)) < Suc (length s)" by simp
  have "infix_to_postfix (CHR ''('' # s)
      = infix_to_postfix_loop (CHR ''('' # s) (0 + length (s @ replicate (length s - 1) CHR ''.'') + 1)
          ([] @ s @ replicate (length s - 1) CHR ''.'') []"
    by (simp add: infix_to_postfix_def infix_to_postfix_loop.simps [of "CHR ''('' # s" 0]
        Let_def op_precedence_def sub)
  also have "\<dots> = Inr (s @ replicate (length s - 1) CHR ''.'')"
    by (subst infix_to_postfix_loop.simps) (simp add: len)
  finally show ?thesis by (simp add: infix_to_postfix_literal [OF assms])
qed

lemma parse_loop_append:
  "parse_loop (xs @ ys) st =
     (case parse_loop xs st of Inl e \<Rightarrow> Inl e | Inr st' \<Rightarrow> parse_loop ys st')"
  by (induction xs arbitrary: st) (simp_all split: sum.splits)

lemma state_id_alloc [simp]: "state_id (alloc_literals s h) = state_id h + length s"
  by (induction s arbitrary: h) simp_all

lemma objs_alloc:
  "objs (alloc_literals s h) i =
     (if state_id h \<le> i \<and> i < state_id h + length s then \<lparr>c = [s ! (i - state_id h)], out = []\<rparr>
      else objs h i)"
proof (induction s arbitrary: h)
  case Nil
  show ?case by auto
next
  case (Cons ch s)
  show ?case by (auto simp: Cons.IH nth_Cons' Suc_diff_le)
qed

lemma parse_loop_literal:
  "literal s \<Longrightarrow>
   parse_loop s (h, fs) =
     Inr (alloc_literals s h, rev (map single [state_id h..<state_id h + length s]) @ fs)"
proof (induction s arbitrary: h fs)
  case Nil
  show ?case by simp
next
  case (Cons ch s)
  have ch: "ch \<notin> operators_set" using literal_char [OF Cons.prems, of ch] by simp
  have s: "literal s" using Cons.prems by (simp add: literal_def)
  have upt: "[state_id h..<state_id h + length (ch # s)]
      = state_id h # [state_id h + 1..<state_id h + 1 + length s]"
    by (subst upt_conv_Cons) simp_all
  have "parse_loop (ch # s) (h, fs)
      = parse_loop s (snd (RegexGraphState_init [ch] [] h), single (state_id h) # fs)"
    by (simp add: parse_char_literal [OF ch] single_def)
  also have "\<dots> = Inr (alloc_literals (ch # s) h,
      rev (map single [state_id h + 1..<state_id h + 1 + length s]) @ single (state_id h) # fs)"
    by (simp add: Cons.IH [OF s])
  finally show ?case by (simp only: upt list.map rev.simps append_assoc append.simps)
qed

lemma state_id_clear_append [simp]: "state_id (clear_append t x h) = state_id h"
  by (simp add: clear_append_def)

lemma objs_clear_append:
  "objs (clear_append t x h) i = (if i = x then (objs h x)\<lparr>out := [t]\<rparr> else objs h i)"
  by (simp add: clear_append_def)

lemma state_id_link [simp]: "state_id (link a j h) = state_id h"
  by (induction j arbitrary: h) simp_all

lemma objs_link:
  "objs (link a j h) i =
     (if a \<le> i \<and> i < a + j then (objs h i)\<lparr>out := [i + 1]\<rparr> else objs h i)"
proof (induction j arbitrary: h)
  case 0
  show ?case by auto
next
  case (Suc j)
  show ?case by (auto simp: Suc.IH objs_clear_append)
qed

lemma start_single [simp]: "start (single i) = i"
  by (simp add: single_def)

lemma set_out_single: "set_out (single x) nf h = clear_append (start nf) x h"
  by (simp add: set_out_def single_def)

lemma parse_loop_concats:
  "parse_loop (replicate j CHR ''.'')
     (h, \<lparr>start = a + j, out_states = q\<rparr> # rev (map single [a..<a + j]) @ fs)
   = Inr (link a j h, \<lparr>start = a, out_states = q\<rparr> # fs)"
proof (induction j arbitrary: h)
  case 0
  show ?case by simp
next
  case (Suc j)
  show ?case
    by (simp add: parse_char_concat set_out_single Suc.IH)
qed

lemma parse_regex_literal:
  assumes "literal s" and "s \<noteq> []"
  shows "\<exists>h. parse_regex n s = Inr (h, n) \<and> chain h n s"
proof -
  obtain m where m: "length s = Suc m" using assms(2) by (cases s) simp_all
  let ?h1 = "alloc_literals s (fresh_heap n)"
  let ?h2 = "link n m ?h1"
  let ?h3 = "clear_append (n + Suc m) (n + m) (snd (RegexGraphState_init MATCH [] ?h2))"
  have id: "state_id (fresh_heap n) = n" by (simp add: fresh_heap_def)
  have "parse_loop (s @ replicate m CHR ''.'') (fresh_heap n, [])
      = parse_loop (replicate m CHR ''.'') (?h1, \<lparr>start = n + m, out_states = [n + m]\<rparr> # rev (map single [n..<n + m]) @ [])"
    by (simp add: parse_loop_append parse_loop_literal [OF assms(1)] id m single_def)
  also have "\<dots> = Inr (?h2, [\<lparr>start = n, out_states = [n + m]\<rparr>])"
    by (rule parse_loop_concats)
  finally have "parse_regex n s = Inr (?h3, n)"
    by (simp add: parse_regex_def infix_to_postfix_literal [OF assms] m id
        set_out_def split: prod.splits) (simp add: RegexGraphState_init_def id m)
  moreover have "chain ?h3 n s"
    by (auto simp: chain_def objs_clear_append objs_link objs_alloc id m)
  ultimately show ?thesis by blast
qed

lemma SPLIT_not_char [simp]: "[ch] \<noteq> SPLIT" "MATCH \<noteq> SPLIT" "[ch] \<noteq> MATCH" "MATCH \<noteq> [ch]"
  by (simp_all add: SPLIT_def MATCH_def)

lemma chain_literal_state:
  "chain h a s \<Longrightarrow> i < length s \<Longrightarrow> objs h (a + i) = \<lparr>c = [s ! i], out = [a + i + 1]\<rparr>"
  by (simp add: chain_def)

lemma chain_match_state: "chain h a s \<Longrightarrow> objs h (a + length s) = \<lparr>c = MATCH, out = []\<rparr>"
  by (simp add: chain_def)

lemma chain_not_split:
  assumes "chain h a s" and "i \<le> length s"
  shows "c (objs h (a + i)) \<noteq> SPLIT"
proof (cases "i < length s")
  case True
  then show ?thesis by (simp add: chain_literal_state [OF assms(1)])
next
  case False
  then have "i = length s" using assms(2) by simp
  then show ?thesis by (simp add: chain_match_state [OF assms(1)])
qed

lemma chain_add_state:
  assumes "chain h a s" and "i \<le> length s" and "0 < d"
  shows "add_state d h (a + i) {} = Inr {a + i}"
proof -
  obtain d' where "d = Suc d'" using assms(3) by (cases d) simp_all
  then show ?thesis by (simp add: add_state_Suc chain_not_split [OF assms(1,2)])
qed

lemma targets_single:
  "targets h {x} ch = (if c (objs h x) = [ch] then set (out (objs h x)) else {})"
  by (simp add: targets_insert)

lemma chain_step:
  assumes "chain h a s" and "i \<le> length s" and "0 < d"
  shows "expand d h (targets h {a + i} ch)
           = Inr (if i < length s \<and> s ! i = ch then {a + Suc i} else {})"
proof (cases "i < length s")
  case True
  have "expand d h {a + Suc i} = Inr {a + Suc i}"
    using chain_add_state [OF assms(1) _ assms(3), of "Suc i"] True
    by (simp add: expand_single)
  then show ?thesis using True
    by (simp add: targets_single chain_literal_state [OF assms(1)])
next
  case False
  then have "i = length s" using assms(2) by simp
  then show ?thesis by (simp add: targets_single chain_match_state [OF assms(1)])
qed

lemma run_empty: "run d h input_str (Inr {}) = Inr {}"
  by (induction input_str) simp_all

lemma chain_run:
  assumes "chain h a s" and "0 < d"
  shows "i \<le> length s \<Longrightarrow>
    \<exists>F. run d h input_str (Inr {a + i}) = Inr F
       \<and> ((\<exists>x\<in>F. c (objs h x) = MATCH) \<longleftrightarrow> input_str = drop i s)"
proof (induction input_str arbitrary: i)
  case Nil
  show ?case
  proof (cases "i < length s")
    case True
    then show ?thesis by (simp add: chain_literal_state [OF assms(1)])
  next
    case False
    then have "i = length s" using Nil by simp
    then show ?thesis by (simp add: chain_match_state [OF assms(1)])
  qed
next
  case (Cons ch rest)
  show ?case
  proof (cases "i < length s \<and> s ! i = ch")
    case True
    then have eq: "ch # rest = drop i s \<longleftrightarrow> rest = drop (Suc i) s"
      by (auto simp flip: Cons_nth_drop_Suc)
    have "expand d h (targets h {a + i} ch) = Inr {a + Suc i}"
      using True chain_step [OF assms(1) Cons.prems assms(2), of ch] by simp
    then show ?thesis
      using True Cons.IH [of "Suc i"] eq by simp
  next
    case False
    then have neq: "ch # rest \<noteq> drop i s"
      by (cases "i < length s") (auto simp flip: Cons_nth_drop_Suc)
    have "expand d h (targets h {a + i} ch) = Inr {}"
      using False chain_step [OF assms(1) Cons.prems assms(2), of ch] by auto
    then show ?thesis
      using neq by (simp add: run_empty)
  qed
qed

lemma literal_accepts:
  assumes "literal s" and "s \<noteq> []" and "0 < depth"
  shows "compiled_accepts depth n input_str s = Inr (input_str = s)"
proof -
  obtain h where h: "parse_regex n s = Inr (h, n)" and ch: "chain h n s"
    using parse_regex_literal [OF assms(1,2)] by blast
  have st: "add_state depth h n {} = Inr {n}"
    using chain_add_state [OF ch _ assms(3), of 0] by simp
  obtain F where "run depth h input_str (Inr {n}) = Inr F"
    and "(\<exists>x\<in>F. c (objs h x) = MATCH) \<longleftrightarrow> input_str = s"
    using chain_run [OF ch assms(3), of 0 input_str] by auto
  then show ?thesis by (simp add: compiled_accepts_def h accepts_def st)
qed

lemma compiled_accepts_cong:
  "infix_to_postfix r1 = infix_to_postfix r2 \<Longrightarrow>
   compiled_accepts depth n input_str r1 = compiled_accepts depth n input_str r2"
  by (simp add: compiled_accepts_def parse_regex_def)

text \<open>
  C7. For every non-empty pattern without operator characters and parentheses, and
  every input, \<open>match_str\<close> returns \<open>True\<close> if the input equals the pattern and
  \<open>False\<close> otherwise (given an admissible iteration order and room for one
  \<open>add_state\<close> call).
\<close>

theorem literal_pattern_matches_itself:
  assumes "iteration_order order" and "0 < depth"
    and "regex_str \<noteq> []" and "\<forall>ch\<in>set regex_str. ch \<notin> set ''|*+?().''"
  shows "match_str order depth n input_str regex_str = Inr (input_str = regex_str)"
proof -
  have "literal regex_str" using assms(4) by (simp add: literal_def list_all_iff)
  then show ?thesis
    using assms(1-3) by (simp add: match_str_compiled literal_accepts)
qed

text \<open>C7, at the pattern \<open>Ext\<close> of the program's own main block.\<close>

theorem literal_pattern_matches_itself_witness:
  "iteration_order sorted_list_of_set \<and> (0::nat) < 1000 \<and> ''Ext'' \<noteq> []
   \<and> literal ''Ext''
   \<and> match_str sorted_list_of_set 1000 0 ''Ext'' ''Ext'' = Inr True
   \<and> match_str sorted_list_of_set 1000 0 ''Ex'' ''Ext'' = Inr False"
  using literal_pattern_matches_itself [of sorted_list_of_set 1000 "''Ext''" 0 "''Ext''"]
    literal_pattern_matches_itself [of sorted_list_of_set 1000 "''Ext''" 0 "''Ex''"]
  by (simp add: iteration_order_sorted literal_def)

text \<open>
  C5, amended. A pattern made of an opening parenthesis that is never closed, followed
  by a non-empty string \<open>s\<close> without operator characters and parentheses (such as
  \<open>(a\<close>), compiles: the end of the string ends the group, the postfix sequence is that
  of \<open>s\<close>, \<open>parse_regex\<close> returns a graph, and \<open>match_str\<close> returns whether the input
  equals \<open>s\<close>.
\<close>

theorem unmatched_parenthesis_closed_by_end_of_string:
  assumes "iteration_order order" and "0 < depth"
    and "s \<noteq> []" and "\<forall>ch\<in>set s. ch \<notin> set ''|*+?().''"
  shows "infix_to_postfix (CHR ''('' # s) = infix_to_postfix s
    \<and> (\<exists>h. parse_regex n (CHR ''('' # s) = Inr (h, n))
    \<and> match_str order depth n input_str (CHR ''('' # s) = Inr (input_str = s)"
proof -
  have lit: "literal s" using assms(4) by (simp add: literal_def list_all_iff)
  note eq = infix_to_postfix_open_literal [OF lit assms(3)]
  have "parse_regex n (CHR ''('' # s) = parse_regex n s"
    by (simp add: parse_regex_def eq)
  moreover have "compiled_accepts depth n input_str (CHR ''('' # s) = Inr (input_str = s)"
    using compiled_accepts_cong [OF eq] literal_accepts [OF lit assms(3,2)] by simp
  ultimately show ?thesis
    using eq parse_regex_literal [OF lit assms(3), of n] assms(1)
    by (auto simp: match_str_compiled)
qed

text \<open>C5, amended, at the pattern \<open>(a\<close>.\<close>

theorem unmatched_parenthesis_closed_by_end_of_string_witness:
  "iteration_order sorted_list_of_set \<and> (0::nat) < 1000 \<and> ''a'' \<noteq> []
   \<and> literal ''a''
   \<and> infix_to_postfix ''(a'' = infix_to_postfix ''a''
   \<and> (\<exists>h. parse_regex 0 ''(a'' = Inr (h, 0))
   \<and> match_str sorted_list_of_set 1000 0 ''a'' ''(a'' = Inr True
   \<and> match_str sorted_list_of_set 1000 0 ''b'' ''(a'' = Inr False"
  using unmatched_parenthesis_closed_by_end_of_string [of sorted_list_of_set 1000 "''a''" 0 "''a''"]
    unmatched_parenthesis_closed_by_end_of_string [of sorted_list_of_set 1000 "''a''" 0 "''b''"]
  by (simp add: iteration_order_sorted literal_def)

text \<open>
  The model against the docstring of \<open>infix_to_postfix\<close>: the expression
  \<open>a(bb)+|cde\<close> becomes \<open>abb.+.cde..|\<close>.
\<close>

lemma infix_to_postfix_docstring_example:
  "infix_to_postfix ''a(bb)+|cde'' = Inr ''abb.+.cde..|''"
  by code_simp

text \<open>
  On the patterns \<open>(a*)*\<close> and \<open>(a+)*\<close> the converter stops at the closing
  parenthesis, the quantifier after the group is dropped, and the graphs are those of
  \<open>a*\<close> and \<open>a+\<close>, without a cycle of Split states: the simulation returns.
\<close>

lemma nested_quantifier_examples:
  "infix_to_postfix ''(a*)*'' = Inr ''a*''
   \<and> infix_to_postfix ''(a+)*'' = Inr ''a+''
   \<and> match_str sorted_list_of_set 1000 0 ''aa'' ''(a*)*'' = Inr False
   \<and> match_str sorted_list_of_set 1000 0 ''aa'' ''(a+)*'' = Inr False"
  by code_simp

end
